theory Spec2Isabelle
  imports Main "HOL-Library.Word"
begin

unbundle bit_operations_syntax

section \<open>Bytes, Python errors and Python string primitives\<close>

text \<open>
  Both modules are Python 2: a \<open>str\<close> is a string of bytes. A byte is an 8-bit word,
  \<open>ord\<close> reads it as an integer (\<open>uint\<close>) and comparison of one-character strings is
  comparison of the byte values.
\<close>

type_synonym byte = "8 word"
type_synonym bytes = "byte list"

datatype py_error =
    IndexError | ValueError | IOError | TypeError | AttributeError
  | ZeroDivisionError | StructError | KeyError | AssertionError

text \<open>\<open>chr(n)\<close> raises ValueError outside \<open>range(256)\<close>.\<close>

definition chr_py :: "int \<Rightarrow> py_error + byte" where
  "chr_py n = (if 0 \<le> n \<and> n < 256 then Inr (word_of_int n) else Inl ValueError)"

text \<open>\<open>s[i]\<close> for a non-negative index: IndexError past the end.\<close>

definition idx :: "'a list \<Rightarrow> nat \<Rightarrow> py_error + 'a" where
  "idx xs i = (if i < length xs then Inr (xs ! i) else Inl IndexError)"

text \<open>\<open>s[a:b]\<close> for non-negative bounds: never raises, clipped to the string.\<close>

definition slice_nat :: "'a list \<Rightarrow> nat \<Rightarrow> nat \<Rightarrow> 'a list" where
  "slice_nat xs a b = take (b - a) (drop a xs)"

section \<open>jfif.py: the segment container\<close>

text \<open>A segment is the tuple (marker, payload); the marker is a Python integer.\<close>

type_synonym segment = "int \<times> bytes"

definition SOF_0 :: int where "SOF_0 = 0xc0"
definition SOF_3 :: int where "SOF_3 = 0xc3"
definition SOS :: int where "SOS = 0xda"
definition APP_0 :: int where "APP_0 = 0xe0"
definition APP_15 :: int where "APP_15 = 0xef"
definition COM :: int where "COM = 0xfe"

record jfif =
  segments :: "segment list"

subsection \<open>getBytes\<close>

text \<open>
  The loop of \<open>getBytes\<close> over \<open>self._segments\<close>, with \<open>img\<close> the string built so far.
  \<open>ln >> 8\<close> is \<open>drop_bit 8 ln\<close>, \<open>ln & 0xff\<close> is \<open>ln AND 0xff\<close>; each \<open>chr\<close> may raise.
\<close>

fun getBytes_loop :: "segment list \<Rightarrow> bytes \<Rightarrow> py_error + bytes" where
  "getBytes_loop [] img = Inr img"
| "getBytes_loop (s # ss) img =
     (if fst s = SOS then getBytes_loop ss (img @ [0xff, 0xda] @ snd s)
      else
        (case chr_py (fst s) of Inl e \<Rightarrow> Inl e | Inr m \<Rightarrow>
          (let ln = int (length (snd s)) + 2 in
            (case chr_py (drop_bit 8 ln) of Inl e \<Rightarrow> Inl e | Inr hi \<Rightarrow>
              (case chr_py (ln AND 0xff) of Inl e \<Rightarrow> Inl e | Inr lo \<Rightarrow>
                 getBytes_loop ss (img @ [0xff] @ [m] @ [hi] @ [lo] @ snd s))))))"

definition getBytes :: "jfif \<Rightarrow> py_error + bytes" where
  "getBytes self =
     (case getBytes_loop (segments self) [0xff, 0xd8] of
        Inl e \<Rightarrow> Inl e
      | Inr img \<Rightarrow> Inr (img @ [0xff, 0xd9]))"

subsection \<open>getByteSize\<close>

fun getByteSize_loop :: "segment list \<Rightarrow> int \<Rightarrow> int" where
  "getByteSize_loop [] count = count"
| "getByteSize_loop (s # ss) count =
     (if fst s = SOS then getByteSize_loop ss (count + (2 + int (length (snd s))))
      else getByteSize_loop ss (count + (4 + int (length (snd s)))))"

definition getByteSize :: "jfif \<Rightarrow> int" where
  "getByteSize self =
     (if segments self = [] then 0 else getByteSize_loop (segments self) 4)"

subsection \<open>getMD5\<close>

text \<open>
  The \<open>md5\<close> module is Python's, not this repository's: the digest is a parameter \<open>H\<close>,
  the function from the bytes fed to the accumulator (the updates, concatenated) to the
  hex digest. \<open>md5_updates\<close> is the loop: it collects what is fed, and \<open>chr\<close> may raise.
\<close>

fun md5_updates :: "segment list \<Rightarrow> bytes \<Rightarrow> py_error + bytes" where
  "md5_updates [] h = Inr h"
| "md5_updates (s # ss) h =
     (if fst s = COM then md5_updates ss h
      else if fst s \<ge> APP_0 \<and> fst s \<le> APP_15 then md5_updates ss h
      else
        (case chr_py (fst s) of Inl e \<Rightarrow> Inl e | Inr m \<Rightarrow>
           md5_updates ss (h @ [m] @ snd s)))"

definition getMD5 :: "(bytes \<Rightarrow> 'd) \<Rightarrow> jfif \<Rightarrow> py_error + 'd" where
  "getMD5 H self =
     (case md5_updates (segments self) [] of Inl e \<Rightarrow> Inl e | Inr fed \<Rightarrow> Inr (H fed))"

subsection \<open>getSize\<close>

text \<open>
  The loop returns at the first segment whose marker lies in SOF_0..SOF_3; falling off
  the end of the loop returns Python's \<open>None\<close>. Indexing the payload may raise.
\<close>

fun getSize_loop :: "segment list \<Rightarrow> py_error + (int \<times> int) option" where
  "getSize_loop [] = Inr None"
| "getSize_loop (s # ss) =
     (if fst s \<ge> SOF_0 \<and> fst s \<le> SOF_3 then
        (case idx (snd s) 3 of Inl e \<Rightarrow> Inl e | Inr b3 \<Rightarrow>
        (case idx (snd s) 4 of Inl e \<Rightarrow> Inl e | Inr b4 \<Rightarrow>
        (case idx (snd s) 1 of Inl e \<Rightarrow> Inl e | Inr b1 \<Rightarrow>
        (case idx (snd s) 2 of Inl e \<Rightarrow> Inl e | Inr b2 \<Rightarrow>
           Inr (Some (uint b3 * 256 + uint b4, uint b1 * 256 + uint b2))))))
      else getSize_loop ss)"

definition getSize :: "jfif \<Rightarrow> py_error + (int \<times> int) option" where
  "getSize self = getSize_loop (segments self)"

subsection \<open>The constructor: scanning the bytes into segments\<close>

text \<open>
  The test of the inner loop that ends an SOS payload: \<open>b2\<close> is FF and \<open>b3\<close> is neither
  00 nor one of D0..D7.
\<close>

definition sos_end :: "byte \<Rightarrow> byte \<Rightarrow> bool" where
  "sos_end b2 b3 \<longleftrightarrow> b2 = 0xff \<and> b3 \<noteq> 0x00 \<and> \<not> (b3 \<ge> 0xd0 \<and> b3 \<le> 0xd7)"

text \<open>
  The inner \<open>while j < imglen\<close> loop. \<open>Some j\<close>: the loop left through \<open>break\<close> at \<open>j\<close>;
  \<open>None\<close>: the loop condition failed. \<open>img[j+1]\<close> raises at the last byte.
\<close>

function sos_search :: "bytes \<Rightarrow> nat \<Rightarrow> py_error + nat option" where
  "sos_search img j =
     (if j < length img then
        (let b2 = img ! j in
          (case idx img (j + 1) of Inl e \<Rightarrow> Inl e | Inr b3 \<Rightarrow>
             if sos_end b2 b3 then Inr (Some j) else sos_search img (j + 1)))
      else Inr None)"
  by pat_completeness auto
termination
  by (relation "measure (\<lambda>(img, j). length img - j)") auto

declare sos_search.simps [simp del]

lemma sos_search_Some:
  "sos_search img j0 = Inr (Some j) \<Longrightarrow>
     j0 \<le> j \<and> j + 1 < length img \<and> sos_end (img ! j) (img ! (j + 1))"
proof (induction img j0 rule: sos_search.induct)
  case (1 img j0)
  note unfold = sos_search.simps [of img j0]
  from "1.prems" have lt: "j0 < length img"
    by (simp add: unfold split: if_splits)
  from "1.prems" lt obtain b3 where b3: "idx img (j0 + 1) = Inr b3"
    by (cases "idx img (j0 + 1)") (simp_all add: unfold Let_def)
  then have in_range: "j0 + 1 < length img" and b3_eq: "b3 = img ! (j0 + 1)"
    by (auto simp: idx_def split: if_splits)
  show ?case
  proof (cases "sos_end (img ! j0) b3")
    case True
    with "1.prems" lt b3 have "j = j0" by (simp add: unfold Let_def)
    with True in_range b3_eq show ?thesis by simp
  next
    case False
    with "1.prems" lt b3 have "sos_search img (j0 + 1) = Inr (Some j)"
      by (simp add: unfold Let_def)
    from "1.IH" [OF lt refl b3 False this] show ?thesis by simp
  qed
qed

text \<open>
  The outer \<open>while i < imglen\<close> loop, \<open>segs\<close> being \<open>self._segments\<close>. \<open>i1\<close> is \<open>i\<close> after
  \<open>i += 1\<close>, the index of the marker byte; every branch ends with the loop's final
  \<open>i += 1\<close>. Slices are clipped, single indices raise.
\<close>

function scan_loop :: "bytes \<Rightarrow> nat \<Rightarrow> segment list \<Rightarrow> py_error + segment list" where
  "scan_loop img i segs =
     (if i < length img then
        (if img ! i = 0xff then
           (let i1 = i + 1 in
             (case idx img i1 of Inl e \<Rightarrow> Inl e | Inr b \<Rightarrow>
                if b = 0x01 \<or> (b \<ge> 0xd0 \<and> b \<le> 0xd9) then scan_loop img (i1 + 1) segs
                else if b = 0xda then
                  (case sos_search img (i1 + 1) of
                     Inl e \<Rightarrow> Inl e
                   | Inr None \<Rightarrow> scan_loop img (i1 + 1) segs
                   | Inr (Some j) \<Rightarrow>
                       scan_loop img (j - 1 + 1) (segs @ [(0xda, slice_nat img (i1 + 1) j)]))
                else
                  (case idx img (i1 + 1) of Inl e \<Rightarrow> Inl e | Inr hi \<Rightarrow>
                  (case idx img (i1 + 2) of Inl e \<Rightarrow> Inl e | Inr lo \<Rightarrow>
                    (let ln = unat hi * 256 + unat lo in
                       scan_loop img (i1 + ln + 1)
                         (segs @ [(uint b, slice_nat img (i1 + 3) (i1 + 1 + ln))]))))))
         else scan_loop img (i + 1) segs)
      else Inr segs)"
  by pat_completeness auto
termination
  by (relation "measure (\<lambda>(img, i, segs). length img - i)")
    (auto dest!: sos_search_Some)

declare scan_loop.simps [simp del]

text \<open>
  What the constructor may be given. A string is the bytes of an image or a file name;
  \<open>FileLike bs\<close> is an object whose \<open>read()\<close> returns \<open>bs\<close>; \<open>NoRead\<close> is any other
  object (it has no \<open>read\<close> attribute). \<open>fs\<close> stands for \<open>open(name, 'rb').read()\<close>:
  the content of the named file, or the error that is raised (IOError for a file that
  cannot be opened or read, TypeError for a name with a NUL byte).
\<close>

datatype data =
    StringType bytes
  | ListType "segment list"
  | Instance jfif
  | FileLike bytes
  | NoRead

definition startswith :: "bytes \<Rightarrow> bytes \<Rightarrow> bool" where
  "startswith s p \<longleftrightarrow> take (length p) s = p"

definition JFIF_init :: "(bytes \<Rightarrow> py_error + bytes) \<Rightarrow> data \<Rightarrow> py_error + jfif" where
  "JFIF_init fs d =
     (case d of
        ListType l \<Rightarrow> Inr \<lparr>segments = l\<rparr>
      | Instance other \<Rightarrow> Inr \<lparr>segments = segments other\<rparr>
      | _ \<Rightarrow>
        (case (case d of
                 StringType s \<Rightarrow>
                   (if startswith s [0xff, 0xd8, 0xff] then Inr s
                    else (case fs s of Inl e \<Rightarrow> Inl e | Inr content \<Rightarrow> Inr content))
               | FileLike bs \<Rightarrow> Inr bs
               | _ \<Rightarrow> Inl AttributeError) of
           Inl e \<Rightarrow> Inl e
         | Inr img \<Rightarrow>
           (case scan_loop img 0 [] of
              Inl e \<Rightarrow> Inl e
            | Inr segs \<Rightarrow> Inr \<lparr>segments = segs\<rparr>)))"

subsection \<open>Predicates on scanned segments\<close>

text \<open>
  An SOS payload as the inner loop leaves it: no position inside it passes the loop's
  test, and its last byte is not FF (an FF there would pass the test together with the
  FF of the marker that ended the search).
\<close>

fun sos_clean :: "bytes \<Rightarrow> bool" where
  "sos_clean [] = True"
| "sos_clean [x] = (x \<noteq> 0xff)"
| "sos_clean (x # y # r) = (\<not> sos_end x y \<and> sos_clean (y # r))"

text \<open>
  What the scan emits: (0xda, payload) from the SOS branch, and from the last branch
  (\<open>ord(b)\<close>, payload) with \<open>b\<close> none of 01, D0..D9, DA and a payload no longer than
  the two length bytes can say.
\<close>

definition scanned_seg :: "segment \<Rightarrow> bool" where
  "scanned_seg s \<longleftrightarrow>
     (if fst s = 0xda then sos_clean (snd s)
      else 0 \<le> fst s \<and> fst s < 256 \<and> fst s \<noteq> 0x01 \<and> \<not> (0xd0 \<le> fst s \<and> fst s \<le> 0xd9)
        \<and> length (snd s) \<le> 65533)"

text \<open>
  The bytes \<open>getBytes\<close> appends for one segment when no \<open>chr\<close> raises (the wire format
  of a segment).
\<close>

definition frame :: "segment \<Rightarrow> bytes" where
  "frame s =
     (if fst s = SOS then [0xff, 0xda] @ snd s
      else (let ln = int (length (snd s)) + 2 in
        [0xff, word_of_int (fst s), word_of_int (drop_bit 8 ln), word_of_int (ln AND 0xff)]
          @ snd s))"

text \<open>
  No mid-scan ambiguity: no SOS segment is directly followed by a segment whose marker
  is 00 (the stuffing byte) or one of D0..D7 (the restart markers), the two cases in
  which the SOS search would read the following segment's header as scan data.
\<close>

fun sos_unambiguous :: "segment list \<Rightarrow> bool" where
  "sos_unambiguous (s # t # ss) =
     ((fst s = SOS \<longrightarrow> fst t \<noteq> 0x00 \<and> \<not> (0xd0 \<le> fst t \<and> fst t \<le> 0xd7))
      \<and> sos_unambiguous (t # ss))"
| "sos_unambiguous _ = True"

text \<open>
  Whether some position of a string passes the test of the SOS search (the search
  looks at the pairs of neighbouring bytes).
\<close>

fun sos_end_in :: "bytes \<Rightarrow> bool" where
  "sos_end_in (x # y # r) = (sos_end x y \<or> sos_end_in (y # r))"
| "sos_end_in _ = False"

text \<open>The two conditions of the loops of \<open>getSize\<close> and \<open>getMD5\<close>, named.\<close>

definition is_SOF :: "segment \<Rightarrow> bool" where
  "is_SOF s \<longleftrightarrow> fst s \<ge> SOF_0 \<and> fst s \<le> SOF_3"

definition md5_skipped :: "int \<Rightarrow> bool" where
  "md5_skipped m \<longleftrightarrow> m = COM \<or> (m \<ge> APP_0 \<and> m \<le> APP_15)"

section \<open>exif.py: the tag table\<close>

subsection \<open>Python slices and \<open>struct.unpack\<close>\<close>

text \<open>
  \<open>s[a:b]\<close> with integer bounds of either sign: a negative bound counts from the end,
  and both are clipped to the string. The slice never raises.
\<close>

definition py_bound :: "nat \<Rightarrow> int \<Rightarrow> nat" where
  "py_bound n k = (if k < 0 then nat (int n + k) else min n (nat k))"

definition py_slice :: "'a list \<Rightarrow> int \<Rightarrow> int \<Rightarrow> 'a list" where
  "py_slice xs a b =
     (let lo = py_bound (length xs) a; hi = py_bound (length xs) b
      in take (hi - lo) (drop lo xs))"

text \<open>
  The formats are in \<open>struct\<close>'s native mode. The byte order is the host's, and it is
  taken little-endian here, the order that the signature the constructor insists on
  (\<open>II\<close>) stands for. \<open>h\<close> is a signed 16-bit, \<open>i\<close> a signed 32-bit and \<open>I\<close> an
  unsigned 32-bit integer; \<open>x\<close> is a pad byte; \<open>hhii\<close> needs no padding. A string whose
  length is not the format's size raises \<open>struct.error\<close>.
\<close>

fun le_uint :: "bytes \<Rightarrow> int" where
  "le_uint [] = 0"
| "le_uint (b # bs) = uint b + 256 * le_uint bs"

definition signed :: "nat \<Rightarrow> int \<Rightarrow> int" where
  "signed w v = (if v < 2 ^ (w - 1) then v else v - 2 ^ w)"

definition unpack_i :: "bytes \<Rightarrow> py_error + int" where
  "unpack_i s = (if length s = 4 then Inr (signed 32 (le_uint s)) else Inl StructError)"

definition unpack_h :: "bytes \<Rightarrow> py_error + int" where
  "unpack_h s = (if length s = 2 then Inr (signed 16 (le_uint s)) else Inl StructError)"

definition unpack_xxh :: "bytes \<Rightarrow> py_error + int" where
  "unpack_xxh s =
     (if length s = 4 then Inr (signed 16 (le_uint (drop 2 s))) else Inl StructError)"

definition unpack_hhii :: "bytes \<Rightarrow> py_error + (int \<times> int \<times> int \<times> int)" where
  "unpack_hhii s =
     (if length s = 12 then
        Inr (signed 16 (le_uint (take 2 s)),
             signed 16 (le_uint (take 2 (drop 2 s))),
             signed 32 (le_uint (take 4 (drop 4 s))),
             signed 32 (le_uint (take 4 (drop 8 s))))
      else Inl StructError)"

definition unpack_II :: "bytes \<Rightarrow> py_error + (int \<times> int)" where
  "unpack_II s =
     (if length s = 8 then Inr (le_uint (take 4 s), le_uint (take 4 (drop 4 s)))
      else Inl StructError)"

subsection \<open>Tag names\<close>

definition tags_by_id :: "(int \<times> string) list" where
  "tags_by_id =
    [(254, ''NewSubfileType''), (255, ''SubfileType''), (256, ''ImageWidth''),
     (257, ''ImageLength''), (258, ''BitsPerSample''), (259, ''Compression''),
     (262, ''PhotometricInterpretation''), (263, ''Threshholding''), (264, ''CellWidth''),
     (265, ''CellLength''), (266, ''FillOrder''), (269, ''DocumentName''),
     (270, ''ImageDescription''), (271, ''Make''), (272, ''Model''),
     (273, ''StripOffsets''), (274, ''Orientation''), (277, ''SamplesPerPixel''),
     (278, ''RowsPerStrip''), (279, ''StripByteCounts''), (280, ''MinSampleValue''),
     (281, ''MaxSampleValue''), (282, ''XResolution''), (283, ''YResolution''),
     (284, ''PlanarConfiguration''), (285, ''PageName''), (286, ''XPosition''),
     (287, ''YPosition''), (288, ''FreeOffsets''), (289, ''FreeByteCounts''),
     (290, ''GrayResponseUnit''), (291, ''GrayResponseCurve''), (292, ''T4Options''),
     (293, ''T6Options''), (296, ''ResolutionUnit''), (297, ''PageNumber''),
     (301, ''TransferFunction''), (305, ''Software''), (306, ''DateTime''),
     (315, ''Artist''), (316, ''HostComputer''), (317, ''Predictor''),
     (318, ''WhitePoint''), (319, ''PrimaryChromaticities''), (320, ''ColorMap''),
     (321, ''HalftoneHints''), (322, ''TileWidth''), (323, ''TileLength''),
     (324, ''TileOffsets''), (325, ''TileByteCounts''), (332, ''InkSet''),
     (333, ''InkNames''), (334, ''NumberOfInks''), (336, ''DotRange''),
     (337, ''TargetPrinter''), (338, ''ExtraSamples''), (339, ''SampleFormat''),
     (340, ''SMinSampleValue''), (341, ''SMaxSampleValue''), (342, ''TransferRange''),
     (512, ''JPEGProc''), (513, ''JPEGInterchangeFormat''),
     (514, ''JPEGInterchangeFormatLngth''), (515, ''JPEGRestartInterval''),
     (517, ''JPEGLosslessPredictors''), (518, ''JPEGPointTransforms''),
     (519, ''JPEGQTables''), (520, ''JPEGDCTables''), (521, ''JPEGACTables''),
     (529, ''YCbCrCoefficients''), (530, ''YCbCrSubSampling''),
     (531, ''YCbCrPositioning''), (532, ''ReferenceBlackWhite''), (33432, ''Copyright'')]"

text \<open>\<open>tags_by_id.get(tag_id)\<close>, and the reverse dictionary built by the module's loop.\<close>

definition tags_by_id_get :: "int \<Rightarrow> string option" where
  "tags_by_id_get = map_of tags_by_id"

definition tags_by_name :: "string \<Rightarrow> int option" where
  "tags_by_name = map_of (map (\<lambda>(i, n). (n, i)) tags_by_id)"

text \<open>A key of the table is an integer or a string.\<close>

datatype key = IntKey int | StrKey string

definition normalize_key :: "key \<Rightarrow> key" where
  "normalize_key k =
     (case k of
        StrKey s \<Rightarrow> (case tags_by_name s of Some i \<Rightarrow> IntKey i | None \<Rightarrow> StrKey s)
      | IntKey i \<Rightarrow> IntKey i)"

subsection \<open>Directory entries\<close>

text \<open>The value of an entry is an integer or a string.\<close>

datatype tiff_value = IntVal int | StrVal bytes

record IFDEntry =
  typ' :: "int option"
  id' :: int
  value' :: tiff_value
  name :: "string option"

definition IFDEntry_init :: "int \<Rightarrow> tiff_value \<Rightarrow> int option \<Rightarrow> IFDEntry" where
  "IFDEntry_init tag_id v t =
     \<lparr>typ' = t, id' = tag_id, value' = v, name = tags_by_id_get tag_id\<rparr>"

text \<open>
  \<open>_decode_tiff_value\<close>. \<open>num/dem\<close> is Python 2 integer division (floor division),
  which raises ZeroDivisionError for \<open>dem = 0\<close>.
\<close>

definition decode_tiff_value :: "bytes \<Rightarrow> int \<Rightarrow> py_error + IFDEntry" where
  "decode_tiff_value data offset =
     (let chunk = py_slice data offset (offset + 12) in
      if length chunk \<noteq> 12 then Inl ValueError
      else
        (case unpack_hhii chunk of
           Inl e \<Rightarrow> Inl e
         | Inr (tag, typ, num_vals, val_off) \<Rightarrow>
             if typ = 1 then Inr (IFDEntry_init tag (IntVal val_off) (Some typ))
             else if typ = 2 then
               Inr (IFDEntry_init tag
                 (StrVal (py_slice data val_off (val_off + num_vals - 1))) (Some typ))
             else if typ = 3 then Inr (IFDEntry_init tag (IntVal val_off) (Some typ))
             else if typ = 4 then Inr (IFDEntry_init tag (IntVal val_off) (Some typ))
             else if typ = 5 then
               (case unpack_II (py_slice data val_off (val_off + 8)) of
                  Inl e \<Rightarrow> Inl e
                | Inr (num, dem) \<Rightarrow>
                    if dem = 0 then Inl ZeroDivisionError
                    else Inr (IFDEntry_init tag (IntVal (num div dem)) (Some typ)))
             else Inl ValueError))"

subsection \<open>The table\<close>

text \<open>\<open>dirty\<close> is the integer 0 or 1 of the source.\<close>

record Exif =
  entries :: "key \<rightharpoonup> IFDEntry"
  dirty :: int

text \<open>What \<open>__setitem__\<close> may be given: an \<open>IFDEntry\<close>, or anything else.\<close>

datatype item = Entry IFDEntry | NotEntry

definition setitem :: "Exif \<Rightarrow> key \<Rightarrow> item \<Rightarrow> py_error + Exif" where
  "setitem self k it =
     (case it of
        NotEntry \<Rightarrow> Inl AssertionError
      | Entry e \<Rightarrow> Inr (self\<lparr>entries := (entries self)(normalize_key k \<mapsto> e), dirty := 1\<rparr>))"

definition delitem :: "Exif \<Rightarrow> key \<Rightarrow> py_error + Exif" where
  "delitem self k =
     (case entries self (normalize_key k) of
        None \<Rightarrow> Inl KeyError
      | Some e \<Rightarrow> Inr (self\<lparr>entries := (entries self)(normalize_key k := None), dirty := 1\<rparr>))"

text \<open>
  The \<open>for i in range(num_entries)\<close> loop of the constructor, \<open>n\<close> the number of rounds
  left; it returns \<open>offset\<close> and \<open>self\<close> as the loop leaves them.
\<close>

fun for_entries :: "bytes \<Rightarrow> nat \<Rightarrow> int \<Rightarrow> Exif \<Rightarrow> py_error + (int \<times> Exif)" where
  "for_entries data 0 offset self = Inr (offset, self)"
| "for_entries data (Suc n) offset self =
     (case decode_tiff_value data offset of
        Inl e \<Rightarrow> Inl e
      | Inr tag \<Rightarrow>
          (case setitem self (IntKey (id' tag)) (Entry tag) of
             Inl e \<Rightarrow> Inl e
           | Inr self' \<Rightarrow> for_entries data n (offset + 12) self'))"

text \<open>
  The \<open>while 1\<close> loop of the constructor. It need not end (a directory offset may lead
  back to a directory already read): \<open>None\<close> is the run that never returns.
  \<open>range(num_entries)\<close> is empty for a negative count.
\<close>

partial_function (option) while_ifd :: "bytes \<Rightarrow> int \<Rightarrow> Exif \<Rightarrow> (py_error + Exif) option" where
  "while_ifd data offset self =
     (case unpack_i (py_slice data offset (offset + 4)) of
        Inl e \<Rightarrow> Some (Inl e)
      | Inr offset1 \<Rightarrow>
          if offset1 = 0 then Some (Inr self)
          else
            (case unpack_h (py_slice data offset1 (offset1 + 2)) of
               Inl e \<Rightarrow> Some (Inl e)
             | Inr num_entries \<Rightarrow>
                 (case for_entries data (nat num_entries) (offset1 + 2) self of
                    Inl e \<Rightarrow> Some (Inl e)
                  | Inr (offset2, self2) \<Rightarrow> while_ifd data offset2 self2)))"

declare while_ifd.simps [code]

text \<open>
  \<open>Exif(data)\<close>; \<open>None\<close> for \<open>data\<close> is the default argument. \<open>data[1]\<close> is read only
  when \<open>data[0]\<close> is \<open>I\<close>, and raises on a string of one byte.
\<close>

definition Exif_init :: "bytes option \<Rightarrow> (py_error + Exif) option" where
  "Exif_init d =
     (let self = \<lparr>entries = Map.empty, dirty = 0\<rparr> in
      case d of
        None \<Rightarrow> Some (Inr self)
      | Some data \<Rightarrow>
          if data = [] then Some (Inr self)
          else if data ! 0 \<noteq> 0x49 then Some (Inl ValueError)
          else
            (case idx data 1 of
               Inl e \<Rightarrow> Some (Inl e)
             | Inr b1 \<Rightarrow>
                 if b1 \<noteq> 0x49 then Some (Inl ValueError)
                 else
                   (case unpack_xxh (take 4 data) of
                      Inl e \<Rightarrow> Some (Inl e)
                    | Inr magic \<Rightarrow>
                        if magic \<noteq> 42 then Some (Inl ValueError)
                        else while_ifd data 4 self)))"

subsection \<open>Example blocks\<close>

text \<open>
  \<open>two_directories\<close>: header, the first directory at offset 8 with the one entry
  (256, Short, 1, 64), its next-directory offset 26 at offset 22, the second directory
  at offset 26 with the one entry (257, Short, 1, 48), and the closing offset 0.
  \<open>one_entry\<close>: header and one directory with the entry (256, Short, 1, 64).
  \<open>rational_half\<close> and \<open>rational_zero\<close>: the entry (282, Rational, 1, offset 12) followed
  at offset 12 by the pairs (1, 2) and (1, 0).
\<close>

definition two_directories :: bytes where
  "two_directories =
    [0x49, 0x49, 0x2a, 0x00, 0x08, 0x00, 0x00, 0x00,
     0x01, 0x00,
     0x00, 0x01, 0x03, 0x00, 0x01, 0x00, 0x00, 0x00, 0x40, 0x00, 0x00, 0x00,
     0x1a, 0x00, 0x00, 0x00,
     0x01, 0x00,
     0x01, 0x01, 0x03, 0x00, 0x01, 0x00, 0x00, 0x00, 0x30, 0x00, 0x00, 0x00,
     0x00, 0x00, 0x00, 0x00]"

definition one_entry :: bytes where
  "one_entry =
    [0x49, 0x49, 0x2a, 0x00, 0x08, 0x00, 0x00, 0x00,
     0x01, 0x00,
     0x00, 0x01, 0x03, 0x00, 0x01, 0x00, 0x00, 0x00, 0x40, 0x00, 0x00, 0x00,
     0x00, 0x00, 0x00, 0x00]"

definition rational_half :: bytes where
  "rational_half =
    [0x1a, 0x01, 0x05, 0x00, 0x01, 0x00, 0x00, 0x00, 0x0c, 0x00, 0x00, 0x00,
     0x01, 0x00, 0x00, 0x00, 0x02, 0x00, 0x00, 0x00]"

definition rational_zero :: bytes where
  "rational_zero =
    [0x1a, 0x01, 0x05, 0x00, 0x01, 0x00, 0x00, 0x00, 0x0c, 0x00, 0x00, 0x00,
     0x01, 0x00, 0x00, 0x00, 0x00, 0x00, 0x00, 0x00]"

section \<open>Size of the rebuilt stream\<close>

lemma getBytes_loop_length:
  "getBytes_loop ss img = Inr out \<Longrightarrow>
     int (length out) = getByteSize_loop ss (int (length img))"
proof (induction ss arbitrary: img)
  case Nil
  then show ?case by simp
next
  case (Cons s ss)
  show ?case
  proof (cases "fst s = SOS")
    case True
    with Cons.prems have "getBytes_loop ss (img @ [0xff, 0xda] @ snd s) = Inr out"
      by simp
    from Cons.IH [OF this] True show ?thesis
      by (simp add: add.commute add.left_commute)
  next
    case False
    with Cons.prems obtain m hi lo where
      rest: "getBytes_loop ss (img @ [0xff] @ [m] @ [hi] @ [lo] @ snd s) = Inr out"
      by (auto simp: Let_def split: sum.splits)
    from Cons.IH [OF rest] False show ?thesis
      by (simp add: add.commute add.left_commute)
  qed
qed

lemma getByteSize_loop_shift:
  "getByteSize_loop ss c = c + getByteSize_loop ss 0"
proof (induction ss arbitrary: c)
  case Nil
  show ?case by simp
next
  case (Cons s ss)
  show ?case
    using Cons.IH [of "c + (2 + int (length (snd s)))"]
      Cons.IH [of "c + (4 + int (length (snd s)))"]
      Cons.IH [of "2 + int (length (snd s))"]
      Cons.IH [of "4 + int (length (snd s))"]
    by simp
qed

text \<open>
  For every container with at least one segment, whenever \<open>getBytes\<close> returns a string
  (no \<open>chr\<close> raises), \<open>getByteSize\<close> is its length.
\<close>

lemma getByteSize_eq_length_getBytes:
  "segments self \<noteq> [] \<Longrightarrow> getBytes self = Inr out \<Longrightarrow>
     getByteSize self = int (length out)"
proof -
  assume ne: "segments self \<noteq> []" and gb: "getBytes self = Inr out"
  from gb obtain img where
    loop: "getBytes_loop (segments self) [0xff, 0xd8] = Inr img" and
    out: "out = img @ [0xff, 0xd9]"
    by (auto simp: getBytes_def split: sum.splits)
  from getBytes_loop_length [OF loop]
  have "int (length img) = getByteSize_loop (segments self) 2" by simp
  moreover have "getByteSize_loop (segments self) 4 = getByteSize_loop (segments self) 2 + 2"
    using getByteSize_loop_shift [of "segments self" 4]
      getByteSize_loop_shift [of "segments self" 2] by simp
  ultimately show ?thesis using ne out by (simp add: getByteSize_def)
qed

lemma getByteSize_example:
  "getBytes \<lparr>segments = [(0xe0, [1, 2]), (0xda, [3])]\<rparr>
       = Inr [0xff, 0xd8, 0xff, 0xe0, 0, 4, 1, 2, 0xff, 0xda, 3, 0xff, 0xd9]"
  "getByteSize \<lparr>segments = [(0xe0, [1, 2]), (0xda, [3])]\<rparr> = 13"
  by (simp_all add: getBytes_def getByteSize_def chr_py_def SOS_def)

lemma getBytes_may_raise: "getBytes \<lparr>segments = [(256, [1])]\<rparr> = Inl ValueError"
  by (simp add: getBytes_def chr_py_def SOS_def)

text \<open>
  C1 (the code at the empty segment list). \<open>getByteSize\<close> is documented to calculate
  how big the rebuilt file will be when \<open>write()\<close> or \<open>getBytes()\<close> is called. For the
  container with no segments its guard returns 0, while \<open>getBytes\<close> returns the four
  bytes FF D8 FF D9: the size and the length of the rebuilt string differ.
\<close>

theorem getByteSize_empty_list:
  "getByteSize \<lparr>segments = []\<rparr> = 0
   \<and> getBytes \<lparr>segments = []\<rparr> = Inr [0xff, 0xd8, 0xff, 0xd9]
   \<and> getByteSize \<lparr>segments = []\<rparr> \<noteq> int (length [0xff, 0xd8, 0xff, 0xd9 :: byte])"
  by (simp add: getByteSize_def getBytes_def)

section \<open>Rebuilding and scanning again\<close>

lemma and_255: "(x::int) AND 0xff = x mod 256"
  using take_bit_eq_mask [of 8 x] by (simp add: take_bit_eq_mod mask_eq_exp_minus_1)

lemma chr_py_byte: "0 \<le> n \<Longrightarrow> n < 256 \<Longrightarrow> chr_py n = Inr (word_of_int n)"
  by (simp add: chr_py_def)

lemma uint_chr: "0 \<le> n \<Longrightarrow> n < 256 \<Longrightarrow> uint (word_of_int n :: byte) = n"
  by (simp add: uint_word_of_int take_bit_eq_mod)

lemma unat_chr: "0 \<le> n \<Longrightarrow> n < 256 \<Longrightarrow> unat (word_of_int n :: byte) = nat n"
  by (simp add: unat_eq_nat_uint uint_chr)

lemma slice_Cons:
  "j0 < j \<Longrightarrow> j0 < length img \<Longrightarrow> slice_nat img j0 j = img ! j0 # slice_nat img (j0 + 1) j"
proof -
  assume a: "j0 < j" "j0 < length img"
  then have "j - j0 = Suc (j - (j0 + 1))" by simp
  moreover from a have "drop j0 img = img ! j0 # drop (j0 + 1) img"
    by (simp add: Cons_nth_drop_Suc)
  ultimately show ?thesis by (simp add: slice_nat_def)
qed

lemma sos_search_clean:
  "sos_search img j0 = Inr (Some j) \<Longrightarrow> sos_clean (slice_nat img j0 j)"
proof (induction img j0 rule: sos_search.induct)
  case (1 img j0)
  note unfold = sos_search.simps [of img j0]
  from sos_search_Some [OF "1.prems"]
  have ge: "j0 \<le> j" and lt: "j + 1 < length img" and fin: "sos_end (img ! j) (img ! (j + 1))"
    by simp_all
  have b3: "idx img (j0 + 1) = Inr (img ! (j0 + 1))" using ge lt by (simp add: idx_def)
  show ?case
  proof (cases "sos_end (img ! j0) (img ! (j0 + 1))")
    case True
    with "1.prems" ge lt b3 have "j = j0" by (simp add: unfold Let_def)
    then show ?thesis by (simp add: slice_nat_def)
  next
    case False
    with "1.prems" ge lt b3 have rec: "sos_search img (j0 + 1) = Inr (Some j)"
      by (simp add: unfold Let_def)
    from ge lt have j0lt: "j0 < length img" by simp
    from "1.IH" [OF j0lt refl b3 False rec]
    have clean: "sos_clean (slice_nat img (j0 + 1) j)" .
    from sos_search_Some [OF rec] have ge1: "j0 + 1 \<le> j" by simp
    then have split: "slice_nat img j0 j = img ! j0 # slice_nat img (j0 + 1) j"
      using j0lt by (simp add: slice_Cons)
    show ?thesis
    proof (cases "j = j0 + 1")
      case True
      with fin have "img ! (j0 + 1) = 0xff" by (simp add: sos_end_def)
      with False have "img ! j0 \<noteq> 0xff" by (simp add: sos_end_def)
      with True split show ?thesis by (simp add: slice_nat_def)
    next
      case neq: False
      with ge1 lt have "slice_nat img (j0 + 1) j = img ! (j0 + 1) # slice_nat img (j0 + 1 + 1) j"
        by (intro slice_Cons) simp_all
      with split clean False show ?thesis by simp
    qed
  qed
qed

lemma sos_search_rebuilt:
  "sos_clean p \<Longrightarrow> sos_end 0xff m' \<Longrightarrow>
   sos_search (pre @ p @ 0xff # m' # rest) (length pre) = Inr (Some (length pre + length p))"
proof (induction p arbitrary: pre rule: sos_clean.induct)
  case 1
  show ?case using "1.prems"
    by (simp add: sos_search.simps [of _ "length pre"] idx_def nth_append)
next
  case (2 x)
  have "\<not> sos_end x 0xff" using "2.prems" by (simp add: sos_end_def)
  moreover have "sos_search ((pre @ [x]) @ [] @ 0xff # m' # rest) (length (pre @ [x]))
      = Inr (Some (length (pre @ [x]) + length ([]::bytes)))"
    using "2.prems" by (simp add: sos_search.simps [of _ "Suc (length pre)"] idx_def nth_append)
  ultimately show ?case
    by (simp add: sos_search.simps [of _ "length pre"] idx_def nth_append)
next
  case (3 x y r)
  from "3.prems" have ne: "\<not> sos_end x y" and cl: "sos_clean (y # r)" by simp_all
  from "3.IH" [OF cl "3.prems"(2), of "pre @ [x]"]
  have "sos_search (pre @ x # y # r @ 0xff # m' # rest) (Suc (length pre))
      = Inr (Some (Suc (length pre) + length (y # r)))" by simp
  with ne show ?case
    by (simp add: sos_search.simps [of _ "length pre"] idx_def nth_append)
qed

lemma scan_loop_end: "length img \<le> i \<Longrightarrow> scan_loop img i acc = Inr acc"
  by (simp add: scan_loop.simps [of img i])

lemma scan_step_skip:
  "m = 0x01 \<or> (0xd0 \<le> m \<and> m \<le> 0xd9) \<Longrightarrow>
   scan_loop (pre @ 0xff # m # rest) (length pre) acc
     = scan_loop (pre @ 0xff # m # rest) (length (pre @ [0xff, m])) acc"
  by (simp add: scan_loop.simps [of _ "length pre"] idx_def nth_append Let_def)

lemma scan_step_ordinary:
  assumes "\<not> (m = 0x01 \<or> (0xd0 \<le> m \<and> m \<le> 0xd9))" "m \<noteq> 0xda"
    and "unat hi * 256 + unat lo = length p + 2"
  shows "scan_loop (pre @ 0xff # m # hi # lo # p @ rest) (length pre) acc
     = scan_loop (pre @ 0xff # m # hi # lo # p @ rest) (length (pre @ 0xff # m # hi # lo # p))
         (acc @ [(uint m, p)])"
proof -
  let ?img = "pre @ 0xff # m # hi # lo # p @ rest"
  have sl: "slice_nat ?img (length pre + 1 + 3) (length pre + 1 + 1 + (length p + 2)) = p"
    by (simp add: slice_nat_def)
  have e: "length (pre @ 0xff # m # hi # lo # p)
      = Suc (Suc (Suc (Suc (length pre + length p))))"
    by simp
  from sl assms show ?thesis unfolding e
    by (auto simp: scan_loop.simps [of _ "length pre"] idx_def nth_append Let_def)
qed

lemma scan_step_sos:
  assumes "sos_clean p" "sos_end 0xff m'"
  shows "scan_loop (pre @ 0xff # 0xda # p @ 0xff # m' # rest) (length pre) acc
     = scan_loop (pre @ 0xff # 0xda # p @ 0xff # m' # rest) (length (pre @ 0xff # 0xda # p))
         (acc @ [(0xda, p)])"
proof -
  let ?img = "pre @ 0xff # 0xda # p @ 0xff # m' # rest"
  from sos_search_rebuilt [OF assms, of "pre @ [0xff, 0xda]" rest]
  have ss: "sos_search ?img (length pre + 1 + 1) = Inr (Some (length pre + 2 + length p))"
    by simp
  have sl: "slice_nat ?img (length pre + 1 + 1) (length pre + 2 + length p) = p"
    by (simp add: slice_nat_def)
  have e: "length (pre @ 0xff # 0xda # p) = Suc (Suc (length pre + length p))"
    by simp
  from ss sl show ?thesis unfolding e
    by (auto simp: scan_loop.simps [of _ "length pre"] idx_def nth_append Let_def)
qed

lemma scan_loop_scanned:
  "scan_loop img i segs = Inr out \<Longrightarrow> list_all scanned_seg segs \<Longrightarrow> list_all scanned_seg out"
proof (induction img i segs rule: scan_loop.induct)
  case (1 img i segs)
  note unfold = scan_loop.simps [of img i segs]
  show ?case
  proof (cases "i < length img")
    case False
    with "1.prems" show ?thesis by (simp add: unfold)
  next
    case lt: True
    show ?thesis
    proof (cases "img ! i = 0xff")
      case False
      with "1.prems" lt have "scan_loop img (i + 1) segs = Inr out" by (simp add: unfold)
      from "1.IH"(5) [OF lt False this "1.prems"(2)] show ?thesis .
    next
      case ff: True
      from "1.prems"(1) lt ff obtain b where b: "idx img (i + 1) = Inr b"
        by (cases "idx img (i + 1)") (auto simp: unfold Let_def split: if_splits)
      show ?thesis
      proof (cases "b = 0x01 \<or> (0xd0 \<le> b \<and> b \<le> 0xd9)")
        case True
        with "1.prems"(1) lt ff b have "scan_loop img (i + 1 + 1) segs = Inr out"
          by (auto simp: unfold Let_def split: if_splits)
        from "1.IH"(1) [OF lt ff refl b True this "1.prems"(2)] show ?thesis .
      next
        case nsp: False
        show ?thesis
        proof (cases "b = 0xda")
          case sos: True
          from "1.prems"(1) lt ff b nsp sos obtain r where r: "sos_search img (i + 1 + 1) = Inr r"
            by (cases "sos_search img (i + 1 + 1)") (auto simp: unfold Let_def split: if_splits)
          show ?thesis
          proof (cases r)
            case None
            with "1.prems"(1) lt ff b nsp sos r
            have "scan_loop img (i + 1 + 1) segs = Inr out"
              by (auto simp: unfold Let_def split: if_splits)
            from "1.IH"(2) [OF lt ff refl b nsp sos r None this "1.prems"(2)]
            show ?thesis .
          next
            case (Some j)
            with "1.prems"(1) lt ff b nsp sos r
            have rec: "scan_loop img (j - 1 + 1)
                (segs @ [(0xda, slice_nat img (i + 1 + 1) j)]) = Inr out"
              by (auto simp: unfold Let_def split: if_splits)
            from r Some have "sos_clean (slice_nat img (i + 1 + 1) j)"
              by (simp add: sos_search_clean)
            then have "scanned_seg (0xda, slice_nat img (i + 1 + 1) j)"
              by (simp add: scanned_seg_def)
            then have "list_all scanned_seg (segs @ [(0xda, slice_nat img (i + 1 + 1) j)])"
              using "1.prems"(2) by simp
            from "1.IH"(3) [OF lt ff refl b nsp sos r Some rec this] show ?thesis .
          qed
        next
          case ord: False
          from "1.prems"(1) lt ff b nsp ord obtain hi where hi: "idx img (i + 1 + 1) = Inr hi"
            by (cases "idx img (i + 1 + 1)") (auto simp: unfold Let_def split: if_splits)
          from "1.prems"(1) lt ff b nsp ord hi obtain lo where lo: "idx img (i + 1 + 2) = Inr lo"
            by (cases "idx img (i + 1 + 2)") (auto simp: unfold Let_def split: if_splits)
          define ln where "ln = unat hi * 256 + unat lo"
          from "1.prems"(1) lt ff b nsp ord hi lo
          have rec: "scan_loop img (i + 1 + ln + 1)
              (segs @ [(uint b, slice_nat img (i + 1 + 3) (i + 1 + 1 + ln))]) = Inr out"
            by (auto simp: unfold Let_def ln_def split: if_splits)
          have "unat hi < 256" "unat lo < 256"
            using unsigned_less [of hi] unsigned_less [of lo] by simp_all
          then have "ln \<le> 65535" by (simp add: ln_def)
          then have len: "length (slice_nat img (i + 1 + 3) (i + 1 + 1 + ln)) \<le> 65533"
            by (simp add: slice_nat_def)
          have u: "0 \<le> uint b" "uint b < 256"
            using uint_lt2p [of b] by simp_all
          have ne: "uint b \<noteq> 0xda" "uint b \<noteq> 0x01"
            using ord nsp by (metis of_int_numeral word_of_int_uint, metis of_int_1 word_of_int_uint)
          have rng: "\<not> (0xd0 \<le> uint b \<and> uint b \<le> 0xd9)"
            using nsp by (simp add: word_le_def)
          have "scanned_seg (uint b, slice_nat img (i + 1 + 3) (i + 1 + 1 + ln))"
            using len u ne rng by (simp add: scanned_seg_def)
          then have "list_all scanned_seg
              (segs @ [(uint b, slice_nat img (i + 1 + 3) (i + 1 + 1 + ln))])"
            using "1.prems"(2) by simp
          from "1.IH"(4) [OF lt ff refl b nsp ord hi lo ln_def rec this] show ?thesis .
        qed
      qed
    qed
  qed
qed

lemma frame_sos: "fst s = 0xda \<Longrightarrow> frame s = 0xff # 0xda # snd s"
  by (simp add: frame_def SOS_def)

lemma frame_ordinary:
  assumes "scanned_seg s" "fst s \<noteq> 0xda"
  shows "\<exists>m hi lo. frame s = 0xff # m # hi # lo # snd s
      \<and> chr_py (fst s) = Inr m
      \<and> chr_py (drop_bit 8 (int (length (snd s)) + 2)) = Inr hi
      \<and> chr_py ((int (length (snd s)) + 2) AND 0xff) = Inr lo
      \<and> uint m = fst s
      \<and> \<not> (m = 0x01 \<or> (0xd0 \<le> m \<and> m \<le> 0xd9)) \<and> m \<noteq> 0xda
      \<and> unat hi * 256 + unat lo = length (snd s) + 2"
proof -
  define ln where "ln = int (length (snd s)) + 2"
  from assms have m: "0 \<le> fst s" "fst s < 256" "fst s \<noteq> 0x01"
      "\<not> (0xd0 \<le> fst s \<and> fst s \<le> 0xd9)" and len: "length (snd s) \<le> 65533"
    by (simp_all add: scanned_seg_def)
  have um: "uint (word_of_int (fst s) :: byte) = fst s" using m by (simp add: uint_chr)
  have ln: "0 \<le> ln" "ln < 65536" using len by (simp_all add: ln_def)
  then have hi: "0 \<le> ln div 256" "ln div 256 < 256" by simp_all
  have lo: "0 \<le> ln mod 256" "ln mod 256 < 256" by simp_all
  have "unat (word_of_int (ln div 256) :: byte) * 256 + unat (word_of_int (ln mod 256) :: byte)
      = nat (ln div 256) * 256 + nat (ln mod 256)"
    using hi lo by (simp only: unat_chr)
  also have "\<dots> = nat (ln div 256 * 256 + ln mod 256)"
  proof -
    have "nat (a * 256 + b) = nat a * 256 + nat b" if "0 \<le> a" "0 \<le> b" for a b :: int
      using that by (simp add: nat_add_distrib nat_mult_distrib)
    from this [OF hi(1) lo(1)] show ?thesis by simp
  qed
  also have "\<dots> = length (snd s) + 2" by (simp add: ln_def)
  finally have dec: "unat (word_of_int (ln div 256) :: byte) * 256
      + unat (word_of_int (ln mod 256) :: byte) = length (snd s) + 2" .
  have ne1: "(word_of_int (fst s) :: byte) \<noteq> 0x01"
  proof
    assume "(word_of_int (fst s) :: byte) = 0x01"
    then have "uint (word_of_int (fst s) :: byte) = 1" by simp
    with um m(3) show False by simp
  qed
  have neda: "(word_of_int (fst s) :: byte) \<noteq> 0xda"
  proof
    assume "(word_of_int (fst s) :: byte) = 0xda"
    then have "uint (word_of_int (fst s) :: byte) = 0xda" by simp
    with um assms(2) show False by simp
  qed
  have rng: "\<not> (0xd0 \<le> (word_of_int (fst s) :: byte) \<and> (word_of_int (fst s) :: byte) \<le> 0xd9)"
    using m(4) um by (simp add: word_le_def)
  show ?thesis
    using assms(2) um ne1 neda rng dec hi lo m(1,2)
    by (simp add: frame_def SOS_def Let_def chr_py_def and_255 drop_bit_eq_div ln_def)
qed

lemma getBytes_loop_frame:
  "list_all scanned_seg ss \<Longrightarrow> getBytes_loop ss img = Inr (img @ concat (map frame ss))"
proof (induction ss arbitrary: img)
  case Nil
  show ?case by simp
next
  case (Cons s ss)
  from Cons.prems have s: "scanned_seg s" and ss: "list_all scanned_seg ss" by simp_all
  show ?case
  proof (cases "fst s = 0xda")
    case True
    then show ?thesis using Cons.IH [OF ss] by (simp add: frame_sos SOS_def)
  next
    case False
    from frame_ordinary [OF s False] obtain m hi lo where
      "frame s = 0xff # m # hi # lo # snd s" "chr_py (fst s) = Inr m"
      "chr_py (drop_bit 8 (int (length (snd s)) + 2)) = Inr hi"
      "chr_py ((int (length (snd s)) + 2) AND 0xff) = Inr lo"
      by blast
    with False show ?thesis using Cons.IH [OF ss] by (simp add: SOS_def Let_def)
  qed
qed

lemma frames_start:
  assumes "list_all scanned_seg ss"
    and "ss \<noteq> [] \<Longrightarrow> fst (hd ss) \<noteq> 0x00 \<and> \<not> (0xd0 \<le> fst (hd ss) \<and> fst (hd ss) \<le> 0xd7)"
  shows "\<exists>m' rest. concat (map frame ss) @ [0xff, 0xd9] = 0xff # m' # rest \<and> sos_end 0xff m'"
proof (cases ss)
  case Nil
  then show ?thesis by (simp add: sos_end_def)
next
  case (Cons t ts)
  with assms have t: "scanned_seg t"
    and nz: "fst t \<noteq> 0x00" "\<not> (0xd0 \<le> fst t \<and> fst t \<le> 0xd7)" by simp_all
  show ?thesis
  proof (cases "fst t = 0xda")
    case True
    then show ?thesis using Cons by (simp add: frame_sos sos_end_def)
  next
    case False
    from frame_ordinary [OF t False] obtain m hi lo where
      fr: "frame t = 0xff # m # hi # lo # snd t" and um: "uint m = fst t"
      by blast
    have "m \<noteq> 0x00"
    proof
      assume "m = 0x00"
      then have "uint m = 0" by simp
      with um nz(1) show False by simp
    qed
    moreover have "\<not> (0xd0 \<le> m \<and> m \<le> 0xd7)"
      using nz(2) um by (simp add: word_le_def)
    ultimately show ?thesis using Cons fr by (simp add: sos_end_def)
  qed
qed

lemma frames_first_byte:
  "\<exists>rest. concat (map frame ss) @ [0xff, 0xd9] = 0xff # rest"
  by (cases ss) (simp_all add: frame_def Let_def)

lemma scan_frames:
  "list_all scanned_seg ss \<Longrightarrow> sos_unambiguous ss \<Longrightarrow>
   scan_loop (pre @ concat (map frame ss) @ [0xff, 0xd9]) (length pre) acc = Inr (acc @ ss)"
proof (induction ss arbitrary: pre acc)
  case Nil
  have "scan_loop (pre @ 0xff # 0xd9 # []) (length pre) acc
      = scan_loop (pre @ 0xff # 0xd9 # []) (length (pre @ [0xff, 0xd9])) acc"
    by (rule scan_step_skip) simp
  also have "\<dots> = Inr acc"
    by (simp add: scan_loop_end)
  finally show ?case by simp
next
  case (Cons s ss)
  from Cons.prems have s: "scanned_seg s" and ss: "list_all scanned_seg ss"
    and un: "sos_unambiguous ss" by (simp_all, cases ss, simp_all)
  let ?tail = "concat (map frame ss) @ [0xff, 0xd9]"
  from Cons.IH [OF ss un, of "pre @ frame s" "acc @ [s]"]
  have IH: "scan_loop (pre @ frame s @ ?tail) (length (pre @ frame s)) (acc @ [s])
      = Inr (acc @ s # ss)" by simp
  show ?case
  proof (cases "fst s = 0xda")
    case True
    have "ss \<noteq> [] \<Longrightarrow> fst (hd ss) \<noteq> 0x00 \<and> \<not> (0xd0 \<le> fst (hd ss) \<and> fst (hd ss) \<le> 0xd7)"
      using Cons.prems(2) True by (cases ss) (simp_all add: SOS_def)
    from frames_start [OF ss this] obtain m' rest where
      tl: "?tail = 0xff # m' # rest" and en: "sos_end 0xff m'" by blast
    from s True have cl: "sos_clean (snd s)" by (simp add: scanned_seg_def)
    have sd: "s = (0xda, snd s)" using True by (cases s) simp
    from scan_step_sos [OF cl en, of pre rest acc] IH tl True sd show ?thesis
      by (simp add: frame_sos)
  next
    case False
    from frame_ordinary [OF s False] obtain m hi lo where
      fr: "frame s = 0xff # m # hi # lo # snd s" and um: "uint m = fst s"
      and nsp: "\<not> (m = 0x01 \<or> (0xd0 \<le> m \<and> m \<le> 0xd9))" and nda: "m \<noteq> 0xda"
      and ln: "unat hi * 256 + unat lo = length (snd s) + 2"
      by blast
    have sd: "s = (uint m, snd s)" using um by (cases s) simp
    from scan_step_ordinary [OF nsp nda ln, of pre ?tail acc] IH fr sd show ?thesis
      by simp
  qed
qed

lemma JFIF_init_scanned:
  assumes "JFIF_init fs (StringType buf) = Inr c"
  shows "\<exists>img. scan_loop img 0 [] = Inr (segments c)"
  using assms by (auto simp: JFIF_init_def split: if_splits sum.splits)

text \<open>
  C2. For every string given to the constructor from which it builds a container with
  no mid-scan ambiguity (\<open>sos_unambiguous\<close>), \<open>getBytes\<close> of the container returns a
  string, and the constructor builds from that string a container with the same
  ordered segment list. (The string may be the image or, by the constructor's rule, the
  name of the file that holds it.)
\<close>

theorem rescan_rebuilt_same_segments:
  assumes "JFIF_init fs (StringType buf) = Inr c" and "sos_unambiguous (segments c)"
  shows "\<exists>out c'. getBytes c = Inr out \<and> JFIF_init fs (StringType out) = Inr c'
           \<and> segments c' = segments c"
proof -
  from JFIF_init_scanned [OF assms(1)] obtain img where
    sc: "scan_loop img 0 [] = Inr (segments c)" by blast
  from scan_loop_scanned [OF sc] have ok: "list_all scanned_seg (segments c)" by simp
  let ?out = "[0xff, 0xd8] @ concat (map frame (segments c)) @ [0xff, 0xd9]"
  have gb: "getBytes c = Inr ?out"
    by (simp add: getBytes_def getBytes_loop_frame [OF ok])
  from frames_first_byte [of "segments c"] obtain rest where
    tl: "concat (map frame (segments c)) @ [0xff, 0xd9] = 0xff # rest" by blast
  then have sw: "startswith ?out [0xff, 0xd8, 0xff]" by (simp add: startswith_def)
  have "scan_loop ([] @ 0xff # 0xd8 # 0xff # rest) (length ([]::bytes)) []
      = scan_loop ([] @ 0xff # 0xd8 # 0xff # rest) (length ([] @ [0xff, 0xd8 :: byte])) []"
    by (rule scan_step_skip) simp
  with tl have "scan_loop ?out 0 [] = scan_loop ?out (length [0xff, 0xd8 :: byte]) []"
    by simp
  also have "\<dots> = Inr ([] @ segments c)"
    by (rule scan_frames [OF ok assms(2)])
  finally have "scan_loop ?out 0 [] = Inr (segments c)" by simp
  with sw have "JFIF_init fs (StringType ?out) = Inr c"
    by (simp add: JFIF_init_def)
  with gb show ?thesis by blast
qed

theorem rescan_rebuilt_same_segments_witness:
  "JFIF_init (\<lambda>name. Inl IOError)
      (StringType [0xff, 0xd8, 0xff, 0xe0, 0, 4, 1, 2, 0xff, 0xda, 3, 0xff, 0xd9])
     = Inr \<lparr>segments = [(0xe0, [1, 2]), (0xda, [3])]\<rparr>
   \<and> sos_unambiguous (segments \<lparr>segments = [(0xe0, [1, 2]), (0xda, [3])]\<rparr>)
   \<and> (\<exists>out c'. getBytes \<lparr>segments = [(0xe0, [1, 2]), (0xda, [3])]\<rparr> = Inr out
        \<and> JFIF_init (\<lambda>name. Inl IOError) (StringType out) = Inr c'
        \<and> segments c' = segments \<lparr>segments = [(0xe0, [1, 2]), (0xda, [3])]\<rparr>)"
proof -
  have sc: "scan_loop [0xff, 0xd8, 0xff, 0xe0, 0, 4, 1, 2, 0xff, 0xda, 3, 0xff, 0xd9] 0 []
      = Inr [(0xe0, [1, 2]), (0xda, [3])]"
    by code_simp
  have h1: "JFIF_init (\<lambda>name. Inl IOError)
      (StringType [0xff, 0xd8, 0xff, 0xe0, 0, 4, 1, 2, 0xff, 0xda, 3, 0xff, 0xd9])
     = Inr \<lparr>segments = [(0xe0, [1, 2]), (0xda, [3])]\<rparr>"
    by (simp add: JFIF_init_def startswith_def sc)
  have h2: "sos_unambiguous (segments \<lparr>segments = [(0xe0, [1, 2]), (0xda, [3])]\<rparr>)"
    by (simp add: SOS_def)
  from rescan_rebuilt_same_segments [OF h1 h2] h1 h2 show ?thesis by blast
qed

text \<open>
  The hypothesis is needed. In the buffer below a marker FF 00 follows the end of the
  scan after an FF D9; the scan emits (0xda, [AA]) and (0, []), the rebuilt stream puts
  FF 00 directly behind the SOS payload, and the second scan reads it as a stuffed byte
  of the scan data.
\<close>

lemma rescan_ambiguous_example:
  "JFIF_init fs (StringType [0xff, 0xd8, 0xff, 0xda, 0xaa, 0xff, 0xd9, 0xff, 0x00, 0x00, 0x02])
     = Inr \<lparr>segments = [(0xda, [0xaa]), (0x00, [])]\<rparr>"
  "getBytes \<lparr>segments = [(0xda, [0xaa]), (0x00, [])]\<rparr>
     = Inr [0xff, 0xd8, 0xff, 0xda, 0xaa, 0xff, 0x00, 0x00, 0x02, 0xff, 0xd9]"
  "JFIF_init fs (StringType [0xff, 0xd8, 0xff, 0xda, 0xaa, 0xff, 0x00, 0x00, 0x02, 0xff, 0xd9])
     = Inr \<lparr>segments = [(0xda, [0xaa, 0xff, 0x00, 0x00, 0x02])]\<rparr>"
  "\<not> sos_unambiguous [(0xda, [0xaa]), (0x00, [])]"
proof -
  have "scan_loop [0xff, 0xd8, 0xff, 0xda, 0xaa, 0xff, 0xd9, 0xff, 0x00, 0x00, 0x02] 0 []
      = Inr [(0xda, [0xaa]), (0x00, [])]"
    by code_simp
  then show "JFIF_init fs
      (StringType [0xff, 0xd8, 0xff, 0xda, 0xaa, 0xff, 0xd9, 0xff, 0x00, 0x00, 0x02])
     = Inr \<lparr>segments = [(0xda, [0xaa]), (0x00, [])]\<rparr>"
    by (simp add: JFIF_init_def startswith_def)
  show "getBytes \<lparr>segments = [(0xda, [0xaa]), (0x00, [])]\<rparr>
     = Inr [0xff, 0xd8, 0xff, 0xda, 0xaa, 0xff, 0x00, 0x00, 0x02, 0xff, 0xd9]"
    by (simp add: getBytes_def chr_py_def SOS_def and_255)
  have "scan_loop [0xff, 0xd8, 0xff, 0xda, 0xaa, 0xff, 0x00, 0x00, 0x02, 0xff, 0xd9] 0 []
      = Inr [(0xda, [0xaa, 0xff, 0x00, 0x00, 0x02])]"
    by code_simp
  then show "JFIF_init fs
      (StringType [0xff, 0xd8, 0xff, 0xda, 0xaa, 0xff, 0x00, 0x00, 0x02, 0xff, 0xd9])
     = Inr \<lparr>segments = [(0xda, [0xaa, 0xff, 0x00, 0x00, 0x02])]\<rparr>"
    by (simp add: JFIF_init_def startswith_def)
  show "\<not> sos_unambiguous [(0xda, [0xaa]), (0x00, [])]"
    by (simp add: SOS_def)
qed

section \<open>Slices past the end of the buffer\<close>

lemma sos_search_no_end:
  "rest \<noteq> [] \<Longrightarrow> \<not> sos_end_in rest \<Longrightarrow>
   sos_search (pre @ rest) (length pre) = Inl IndexError"
proof (induction rest arbitrary: pre)
  case Nil
  then show ?case by simp
next
  case (Cons x r)
  show ?case
  proof (cases r)
    case Nil
    then show ?thesis
      by (simp add: sos_search.simps [of _ "length pre"] idx_def)
  next
    case (Cons y r')
    with Cons.prems have ne: "\<not> sos_end x y" and cl: "\<not> sos_end_in r" by simp_all
    from Cons.IH [OF _ cl, of "pre @ [x]"] Cons
    have "sos_search (pre @ x # y # r') (Suc (length pre)) = Inl IndexError" by simp
    with ne Cons show ?thesis
      by (simp add: sos_search.simps [of _ "length pre"] idx_def nth_append)
  qed
qed

lemma scan_step_truncated:
  assumes "\<not> (m = 0x01 \<or> (0xd0 \<le> m \<and> m \<le> 0xd9))" "m \<noteq> 0xda"
    and "length rest + 2 < unat hi * 256 + unat lo"
  shows "scan_loop (pre @ 0xff # m # hi # lo # rest) (length pre) acc
     = Inr (acc @ [(uint m, rest)])"
proof -
  let ?img = "pre @ 0xff # m # hi # lo # rest"
  let ?ln = "unat hi * 256 + unat lo"
  have sl: "slice_nat ?img (length pre + 1 + 3) (length pre + 1 + 1 + ?ln) = rest"
    using assms(3) by (simp add: slice_nat_def)
  have fin: "scan_loop ?img (length pre + 1 + ?ln + 1) (acc @ [(uint m, rest)])
      = Inr (acc @ [(uint m, rest)])"
    using assms(3) by (intro scan_loop_end) simp
  have "scan_loop ?img (length pre) acc
      = scan_loop ?img (length pre + 1 + ?ln + 1)
          (acc @ [(uint m, slice_nat ?img (length pre + 1 + 3) (length pre + 1 + 1 + ?ln))])"
    using assms(1,2)
    by (auto simp: scan_loop.simps [of _ "length pre"] idx_def nth_append Let_def)
  with sl fin show ?thesis by simp
qed

text \<open>
  C3 (as the code has it). The scan has no bounds check of its own. At an ordinary
  marker whose two length bytes announce more payload than the buffer holds, the slice
  is clipped: the segment is emitted with the bytes that remain and the scan ends
  without an error. At an SOS marker followed by at least one byte and by no position
  that ends the search, the search indexes past the end and the scan fails with
  IndexError.
\<close>

theorem scan_past_end:
  "(\<not> (m = 0x01 \<or> (m \<ge> 0xd0 \<and> m \<le> 0xd9)) \<and> m \<noteq> 0xda
      \<and> length rest + 2 < unat hi * 256 + unat lo
    \<longrightarrow> scan_loop (pre @ [0xff, m, hi, lo] @ rest) (length pre) segs
          = Inr (segs @ [(uint m, rest)]))
   \<and> (rest \<noteq> [] \<and> \<not> sos_end_in rest
    \<longrightarrow> scan_loop (pre @ [0xff, 0xda] @ rest) (length pre) segs = Inl IndexError)"
proof (intro conjI impI)
  assume "\<not> (m = 0x01 \<or> (m \<ge> 0xd0 \<and> m \<le> 0xd9)) \<and> m \<noteq> 0xda
      \<and> length rest + 2 < unat hi * 256 + unat lo"
  then show "scan_loop (pre @ [0xff, m, hi, lo] @ rest) (length pre) segs
      = Inr (segs @ [(uint m, rest)])"
    using scan_step_truncated [of m rest hi lo pre segs] by simp
next
  assume a: "rest \<noteq> [] \<and> \<not> sos_end_in rest"
  then have "sos_search ((pre @ [0xff, 0xda]) @ rest) (length (pre @ [0xff, 0xda :: byte]))
      = Inl IndexError"
    by (intro sos_search_no_end) simp_all
  then have "sos_search (pre @ 0xff # 0xda # rest) (length pre + 1 + 1) = Inl IndexError"
    by simp
  then show "scan_loop (pre @ [0xff, 0xda] @ rest) (length pre) segs = Inl IndexError"
    by (simp add: scan_loop.simps [of _ "length pre"] idx_def nth_append Let_def)
qed

theorem scan_past_end_witness:
  "scan_loop [0xff, 0xd8, 0xff, 0xe0, 0x00, 0x10, 0xaa] (length [0xff, 0xd8 :: byte]) []
     = Inr [(0xe0, [0xaa])]
   \<and> scan_loop [0xff, 0xd8, 0xff, 0xda, 0xaa, 0xbb] (length [0xff, 0xd8 :: byte]) []
     = Inl IndexError"
proof -
  from scan_past_end [of "0xe0" "[0xaa]" "0x00" "0x10" "[0xff, 0xd8]" "[]"]
  have "scan_loop [0xff, 0xd8, 0xff, 0xe0, 0x00, 0x10, 0xaa] (length [0xff, 0xd8 :: byte]) []
      = Inr [(0xe0, [0xaa])]"
    by simp
  moreover from scan_past_end [of _ "[0xaa, 0xbb]" _ _ "[0xff, 0xd8]" "[]"]
  have "scan_loop [0xff, 0xd8, 0xff, 0xda, 0xaa, 0xbb] (length [0xff, 0xd8 :: byte]) []
      = Inl IndexError"
    by (simp add: sos_end_def)
  ultimately show ?thesis by simp
qed

theorem scan_truncates_counterexample:
  "JFIF_init (\<lambda>name. Inl IOError) (StringType [0xff, 0xd8, 0xff, 0xe0, 0x00, 0x10, 0xaa])
     = Inr \<lparr>segments = [(0xe0, [0xaa])]\<rparr>"
proof -
  have "scan_loop [0xff, 0xd8, 0xff, 0xe0, 0x00, 0x10, 0xaa] 0 [] = Inr [(0xe0, [0xaa])]"
    by code_simp
  then show ?thesis by (simp add: JFIF_init_def startswith_def)
qed

section \<open>What the constructor accepts\<close>

text \<open>
  C4 (as the code has it). An input that is neither a string, nor a list, nor a
  container is asked for its \<open>read()\<close> and the result is scanned: a file-like object is
  accepted (the fifth form of the docstring), and any other object fails with
  AttributeError. There is no error of the constructor's own.
\<close>

theorem JFIF_init_other_input:
  "(\<forall>s. d \<noteq> StringType s) \<and> (\<forall>l. d \<noteq> ListType l) \<and> (\<forall>c. d \<noteq> Instance c)
     \<longrightarrow> JFIF_init fs d =
          (case d of
             FileLike bs \<Rightarrow>
               (case scan_loop bs 0 [] of Inl e \<Rightarrow> Inl e | Inr segs \<Rightarrow> Inr \<lparr>segments = segs\<rparr>)
           | _ \<Rightarrow> Inl AttributeError)"
  by (cases d) (simp_all add: JFIF_init_def split: sum.splits)

theorem JFIF_init_other_input_witness:
  "JFIF_init (\<lambda>name. Inl IOError) (FileLike [0xff, 0xd8, 0xff, 0xe0, 0, 4, 1, 2, 0xff, 0xd9])
     = Inr \<lparr>segments = [(0xe0, [1, 2])]\<rparr>
   \<and> JFIF_init (\<lambda>name. Inl IOError) NoRead = Inl AttributeError"
proof -
  have sc: "scan_loop [0xff, 0xd8, 0xff, 0xe0, 0, 4, 1, 2, 0xff, 0xd9] 0 []
      = Inr [(0xe0, [1, 2])]"
    by code_simp
  from JFIF_init_other_input
    [of "FileLike [0xff, 0xd8, 0xff, 0xe0, 0, 4, 1, 2, 0xff, 0xd9]" "\<lambda>name. Inl IOError"]
  have "JFIF_init (\<lambda>name. Inl IOError)
      (FileLike [0xff, 0xd8, 0xff, 0xe0, 0, 4, 1, 2, 0xff, 0xd9])
     = Inr \<lparr>segments = [(0xe0, [1, 2])]\<rparr>"
    by (simp add: sc)
  moreover from JFIF_init_other_input [of NoRead "\<lambda>name. Inl IOError"]
  have "JFIF_init (\<lambda>name. Inl IOError) NoRead = Inl AttributeError" by simp
  ultimately show ?thesis by simp
qed

text \<open>
  A string without the signature is taken as a file name, and what \<open>open\<close> or \<open>read\<close>
  raises is what the constructor raises.
\<close>

lemma JFIF_init_open_fails:
  "\<not> startswith s [0xff, 0xd8, 0xff] \<Longrightarrow> fs s = Inl e \<Longrightarrow>
     JFIF_init fs (StringType s) = Inl e"
  by (simp add: JFIF_init_def)

theorem file_like_accepted_counterexample:
  "JFIF_init (\<lambda>name. Inl IOError) (FileLike [0xff, 0xd8, 0xff, 0xe0, 0, 4, 1, 2, 0xff, 0xd9])
     = Inr \<lparr>segments = [(0xe0, [1, 2])]\<rparr>"
proof -
  have "scan_loop [0xff, 0xd8, 0xff, 0xe0, 0, 4, 1, 2, 0xff, 0xd9] 0 []
      = Inr [(0xe0, [1, 2])]"
    by code_simp
  then show ?thesis by (simp add: JFIF_init_def)
qed

section \<open>Dimensions\<close>

lemma getSize_loop_find:
  "getSize_loop ss =
     (case find is_SOF ss of
        None \<Rightarrow> Inr None
      | Some s \<Rightarrow>
          if length (snd s) < 5 then Inl IndexError
          else Inr (Some (uint (snd s ! 3) * 256 + uint (snd s ! 4),
                          uint (snd s ! 1) * 256 + uint (snd s ! 2))))"
  by (induction ss) (auto simp: is_SOF_def idx_def)

text \<open>
  C5 (as the code has it). \<open>getSize\<close> looks for the first segment whose marker lies in
  C0..C3. With none it returns \<open>None\<close> and raises nothing. Otherwise it returns
  (width, height), the width big-endian from payload bytes 3 and 4 and the height from
  bytes 1 and 2, and raises IndexError when the payload has fewer than five bytes. The
  SOF_0 payload 01 00 64 00 C8 gives (200, 100).
\<close>

theorem getSize_first_SOF:
  "getSize self =
     (case find is_SOF (segments self) of
        None \<Rightarrow> Inr None
      | Some s \<Rightarrow>
          if length (snd s) < 5 then Inl IndexError
          else Inr (Some (uint (snd s ! 3) * 256 + uint (snd s ! 4),
                          uint (snd s ! 1) * 256 + uint (snd s ! 2))))
   \<and> getSize \<lparr>segments = [(0xc0, [0x01, 0x00, 0x64, 0x00, 0xc8])]\<rparr> = Inr (Some (200, 100))"
  by (simp add: getSize_def getSize_loop_find is_SOF_def SOF_0_def SOF_3_def)

theorem getSize_first_SOF_witness:
  "getSize \<lparr>segments = [(0xe0, [9]), (0xc2, [8, 0x01, 0x02, 0x03, 0x04, 7]), (0xc0, [])]\<rparr>
     = Inr (Some (0x0304, 0x0102))"
  using getSize_first_SOF
    [of "\<lparr>segments = [(0xe0, [9]), (0xc2, [8, 0x01, 0x02, 0x03, 0x04, 7]), (0xc0, [])]\<rparr>"]
  by (simp add: is_SOF_def SOF_0_def SOF_3_def)

theorem getSize_no_SOF_counterexample:
  "getSize \<lparr>segments = [(0xe0, [1, 2])]\<rparr> = Inr None"
  by (simp add: getSize_def SOF_0_def SOF_3_def)

section \<open>The fingerprint\<close>

lemma md5_updates_acc:
  "md5_updates ss h = (case md5_updates ss [] of Inl e \<Rightarrow> Inl e | Inr x \<Rightarrow> Inr (h @ x))"
proof (induction ss arbitrary: h)
  case Nil
  show ?case by simp
next
  case (Cons s ss)
  show ?case
  proof (cases "chr_py (fst s)")
    case (Inl e)
    then show ?thesis using Cons.IH [of h] Cons.IH [of "[]"] by (simp split: sum.splits)
  next
    case (Inr m)
    then show ?thesis
      using Cons.IH [of h] Cons.IH [of "h @ [m] @ snd s"] Cons.IH [of "[m] @ snd s"]
      by (simp split: sum.splits)
  qed
qed

lemma md5_updates_append:
  "md5_updates (pre @ ss) h =
     (case md5_updates pre h of Inl e \<Rightarrow> Inl e | Inr h' \<Rightarrow> md5_updates ss h')"
  by (induction pre arbitrary: h) (simp_all split: sum.splits)

lemma md5_updates_skipped:
  "md5_skipped m \<Longrightarrow> md5_updates (pre @ (m, p) # post) h = md5_updates (pre @ post) h"
  by (auto simp: md5_updates_append md5_skipped_def split: sum.splits)

lemma md5_updates_fed:
  assumes "\<not> md5_skipped m" and "md5_updates (pre @ (m, p) # post) [] = Inr fed"
  shows "\<exists>a c b. chr_py m = Inr c \<and> md5_updates pre [] = Inr a \<and> md5_updates post [] = Inr b
           \<and> fed = a @ [c] @ p @ b"
proof -
  from assms(2) obtain a where a: "md5_updates pre [] = Inr a"
    and r: "md5_updates ((m, p) # post) a = Inr fed"
    by (auto simp: md5_updates_append split: sum.splits)
  from r assms(1) obtain c where c: "chr_py m = Inr c"
    and r2: "md5_updates post (a @ [c] @ p) = Inr fed"
    by (auto simp: md5_skipped_def split: sum.splits if_splits)
  from r2 obtain b where b: "md5_updates post [] = Inr b" and "fed = (a @ [c] @ p) @ b"
    using md5_updates_acc [of post "a @ [c] @ p"] by (auto split: sum.splits)
  with a c show ?thesis by simp
qed

text \<open>
  C9 (as the code has it). Changing the payload of a Comment or APP_0..APP_15 segment
  leaves the result of \<open>getMD5\<close> unchanged, whatever the digest function. Changing the
  payload of any other segment changes the bytes fed to the digest, and the two results
  are the digests of these two different strings; they are different digests only
  where the digest function does not collide on the two strings.
\<close>

theorem getMD5_payload_change:
  "(md5_skipped m \<longrightarrow>
      getMD5 H \<lparr>segments = pre @ (m, p) # post\<rparr> = getMD5 H \<lparr>segments = pre @ (m, p') # post\<rparr>)
   \<and> (\<not> md5_skipped m \<and> p \<noteq> p'
        \<and> md5_updates (pre @ (m, p) # post) [] = Inr fed
        \<and> md5_updates (pre @ (m, p') # post) [] = Inr fed'
      \<longrightarrow> fed \<noteq> fed'
        \<and> getMD5 H \<lparr>segments = pre @ (m, p) # post\<rparr> = Inr (H fed)
        \<and> getMD5 H \<lparr>segments = pre @ (m, p') # post\<rparr> = Inr (H fed'))"
proof (intro conjI impI)
  assume "md5_skipped m"
  then show "getMD5 H \<lparr>segments = pre @ (m, p) # post\<rparr>
      = getMD5 H \<lparr>segments = pre @ (m, p') # post\<rparr>"
    by (simp add: getMD5_def md5_updates_skipped)
next
  assume a: "\<not> md5_skipped m \<and> p \<noteq> p'
        \<and> md5_updates (pre @ (m, p) # post) [] = Inr fed
        \<and> md5_updates (pre @ (m, p') # post) [] = Inr fed'"
  from a md5_updates_fed [of m pre p post fed] obtain x c y where
    f: "chr_py m = Inr c" "md5_updates pre [] = Inr x" "md5_updates post [] = Inr y"
      "fed = x @ [c] @ p @ y" by blast
  from a md5_updates_fed [of m pre p' post fed'] f have f': "fed' = x @ [c] @ p' @ y"
    by auto
  from a f(4) f' show "fed \<noteq> fed'" by simp
  from a show "getMD5 H \<lparr>segments = pre @ (m, p) # post\<rparr> = Inr (H fed)"
    by (simp add: getMD5_def)
  from a show "getMD5 H \<lparr>segments = pre @ (m, p') # post\<rparr> = Inr (H fed')"
    by (simp add: getMD5_def)
qed

theorem getMD5_payload_change_witness:
  "getMD5 (\<lambda>fed. fed) \<lparr>segments = [(0xdb, [1])] @ (0xfe, [2, 3]) # [(0xda, [4])]\<rparr>
     = getMD5 (\<lambda>fed. fed) \<lparr>segments = [(0xdb, [1])] @ (0xfe, [5]) # [(0xda, [4])]\<rparr>
   \<and> getMD5 (\<lambda>fed. fed) \<lparr>segments = [(0xdb, [1])] @ (0xc4, [2, 3]) # [(0xda, [4])]\<rparr>
       = Inr [0xdb, 1, 0xc4, 2, 3, 0xda, 4]
   \<and> getMD5 (\<lambda>fed. fed) \<lparr>segments = [(0xdb, [1])] @ (0xc4, [5]) # [(0xda, [4])]\<rparr>
       = Inr [0xdb, 1, 0xc4, 5, 0xda, 4]
   \<and> [0xdb, 1, 0xc4, 2, 3, 0xda, 4] \<noteq> [0xdb, 1, 0xc4, 5, 0xda, 4 :: byte]"
proof -
  have sk: "md5_skipped 0xfe" and ns: "\<not> md5_skipped 0xc4"
    by (simp_all add: md5_skipped_def COM_def APP_0_def APP_15_def)
  have u: "md5_updates ([(0xdb, [1])] @ (0xc4, [2, 3]) # [(0xda, [4])]) []
      = Inr [0xdb, 1, 0xc4, 2, 3, 0xda, 4]"
    and u': "md5_updates ([(0xdb, [1])] @ (0xc4, [5]) # [(0xda, [4])]) []
      = Inr [0xdb, 1, 0xc4, 5, 0xda, 4]"
    by (simp_all add: chr_py_def COM_def APP_0_def APP_15_def)
  from getMD5_payload_change
    [where m = "0xfe" and H = "\<lambda>fed. fed" and pre = "[(0xdb, [1])]" and p = "[2, 3]"
      and post = "[(0xda, [4])]" and p' = "[5]"] sk
  have a: "getMD5 (\<lambda>fed. fed) \<lparr>segments = [(0xdb, [1])] @ (0xfe, [2, 3]) # [(0xda, [4])]\<rparr>
     = getMD5 (\<lambda>fed. fed) \<lparr>segments = [(0xdb, [1])] @ (0xfe, [5]) # [(0xda, [4])]\<rparr>"
    by blast
  from getMD5_payload_change
    [where m = "0xc4" and H = "\<lambda>fed. fed" and pre = "[(0xdb, [1])]" and p = "[2, 3]"
      and post = "[(0xda, [4])]" and p' = "[5]"
      and fed = "[0xdb, 1, 0xc4, 2, 3, 0xda, 4]" and fed' = "[0xdb, 1, 0xc4, 5, 0xda, 4]"]
    ns u u'
  have b: "[0xdb, 1, 0xc4, 2, 3, 0xda, 4] \<noteq> [0xdb, 1, 0xc4, 5, 0xda, 4 :: byte]
     \<and> getMD5 (\<lambda>fed. fed) \<lparr>segments = [(0xdb, [1])] @ (0xc4, [2, 3]) # [(0xda, [4])]\<rparr>
       = Inr [0xdb, 1, 0xc4, 2, 3, 0xda, 4]
     \<and> getMD5 (\<lambda>fed. fed) \<lparr>segments = [(0xdb, [1])] @ (0xc4, [5]) # [(0xda, [4])]\<rparr>
       = Inr [0xdb, 1, 0xc4, 5, 0xda, 4]"
    by simp
  from a b show ?thesis by blast
qed

text \<open>
  No function into the 128-bit digests separates all payloads of a segment that is
  digested: the payloads are infinitely many.
\<close>

theorem getMD5_collision_counterexample:
  "\<not> (\<exists>H :: bytes \<Rightarrow> 128 word. \<forall>p p'. p \<noteq> p' \<longrightarrow>
        getMD5 H \<lparr>segments = [(0xdb, p)]\<rparr> \<noteq> getMD5 H \<lparr>segments = [(0xdb, p')]\<rparr>)"
proof
  assume "\<exists>H :: bytes \<Rightarrow> 128 word. \<forall>p p'. p \<noteq> p' \<longrightarrow>
        getMD5 H \<lparr>segments = [(0xdb, p)]\<rparr> \<noteq> getMD5 H \<lparr>segments = [(0xdb, p')]\<rparr>"
  then obtain H :: "bytes \<Rightarrow> 128 word" where
    H: "\<And>p p'. p \<noteq> p' \<Longrightarrow>
        getMD5 H \<lparr>segments = [(0xdb, p)]\<rparr> \<noteq> getMD5 H \<lparr>segments = [(0xdb, p')]\<rparr>"
    by blast
  have g: "getMD5 H \<lparr>segments = [(0xdb, p)]\<rparr> = Inr (H (0xdb # p))" for p
    by (simp add: getMD5_def chr_py_def COM_def APP_0_def APP_15_def)
  have "inj (\<lambda>p. H (0xdb # p))"
  proof (rule injI)
    fix p p' assume "H (0xdb # p) = H (0xdb # p')"
    then show "p = p'" using H [of p p'] g by auto
  qed
  then have "finite (UNIV :: bytes set)"
    by (rule finite_imageD [OF finite_subset [OF subset_UNIV finite]])
  then show False by (simp add: infinite_UNIV_listI)
qed

section \<open>The directory chain\<close>

lemmas exif_eval =
  idx_def unpack_xxh_def signed_def py_slice_def py_bound_def unpack_i_def unpack_h_def
  unpack_II_def decode_tiff_value_def unpack_hhii_def IFDEntry_init_def setitem_def
  normalize_key_def tags_by_id_get_def tags_by_id_def

lemma setitem_Entry:
  "setitem self (IntKey i) (Entry e) = Inr (self\<lparr>entries := (entries self)(IntKey i \<mapsto> e), dirty := 1\<rparr>)"
  by (simp add: setitem_def normalize_key_def)

lemma for_entries_result:
  "for_entries data n off self = Inr (off', self') \<Longrightarrow>
     off' = off + 12 * int n
     \<and> dom (entries self) \<subseteq> dom (entries self')
     \<and> (0 < n \<longrightarrow> dirty self' = 1)
     \<and> (\<forall>k<n. \<exists>e. decode_tiff_value data (off + 12 * int k) = Inr e
            \<and> entries self' (IntKey (id' e)) \<noteq> None)"
proof (induction n arbitrary: off self)
  case 0
  then show ?case by simp
next
  case (Suc n)
  from Suc.prems obtain tag where tag: "decode_tiff_value data off = Inr tag"
    and rest: "for_entries data n (off + 12)
        (self\<lparr>entries := (entries self)(IntKey (id' tag) \<mapsto> tag), dirty := 1\<rparr>)
        = Inr (off', self')"
    by (auto simp: setitem_Entry split: sum.splits)
  let ?s1 = "self\<lparr>entries := (entries self)(IntKey (id' tag) \<mapsto> tag), dirty := 1\<rparr>"
  note IH = Suc.IH [OF rest]
  from IH have off: "off' = off + 12 + 12 * int n" by blast
  from IH have dm: "dom (entries ?s1) \<subseteq> dom (entries self')" by blast
  from IH have dirty: "0 < n \<longrightarrow> dirty self' = 1" by blast
  from IH have ents: "\<forall>k<n. \<exists>e. decode_tiff_value data (off + 12 + 12 * int k) = Inr e
            \<and> entries self' (IntKey (id' e)) \<noteq> None" by blast
  have "dom (entries ?s1) = insert (IntKey (id' tag)) (dom (entries self))" by simp
  with dm have dm0: "dom (entries self) \<subseteq> dom (entries self')"
    and first: "entries self' (IntKey (id' tag)) \<noteq> None" by auto
  have d1: "dirty self' = 1"
  proof (cases n)
    case 0
    with rest show ?thesis by auto
  next
    case (Suc m)
    with dirty show ?thesis by simp
  qed
  have all: "\<exists>e. decode_tiff_value data (off + 12 * int k) = Inr e
            \<and> entries self' (IntKey (id' e)) \<noteq> None" if "k < Suc n" for k
  proof (cases k)
    case 0
    with tag first show ?thesis by simp
  next
    case (Suc j)
    with that have "j < n" by simp
    with ents obtain e where "decode_tiff_value data (off + 12 + 12 * int j) = Inr e"
      "entries self' (IntKey (id' e)) \<noteq> None" by blast
    moreover have "off + 12 + 12 * int j = off + 12 * int k" using Suc by simp
    ultimately show ?thesis by auto
  qed
  from off dm0 d1 all show ?case by auto
qed

lemma while_ifd_dom:
  "while_ifd data offset self = Some res \<Longrightarrow>
     (\<forall>r. res = Inr r \<longrightarrow> dom (entries self) \<subseteq> dom (entries r))"
proof (induction rule: while_ifd.raw_induct [rotated, consumes 1, case_names step])
  case (step loop data offset self res)
  show ?case
  proof (intro allI impI)
    fix r assume r: "res = Inr r"
    from step.hyps r obtain offset1 where
      o1: "unpack_i (py_slice data offset (offset + 4)) = Inr offset1"
      by (auto split: sum.splits)
    show "dom (entries self) \<subseteq> dom (entries r)"
    proof (cases "offset1 = 0")
      case True
      with step.hyps o1 r show ?thesis by simp
    next
      case False
      with step.hyps o1 r obtain n offset2 self2 where
        fe: "for_entries data (nat n) (offset1 + 2) self = Inr (offset2, self2)"
        and lp: "loop data offset2 self2 = Some res"
        by (auto split: sum.splits)
      from step.IH [OF lp] r have "dom (entries self2) \<subseteq> dom (entries r)" by blast
      moreover from for_entries_result [OF fe]
      have "dom (entries self) \<subseteq> dom (entries self2)" by blast
      ultimately show ?thesis by blast
    qed
  qed
qed

text \<open>
  C6 (as the code has it). The fixed location 4 is read once, before the loop. After the
  entries of a directory at \<open>d\<close> with \<open>n\<close> entries the variable \<open>offset\<close> is
  \<open>d + 2 + 12 n\<close>, the position of the directory's next-directory field, and the next
  round of the loop reads the offset of the next directory there. So whenever the
  constructor's loop returns a table, every entry of every directory on the chain has
  its tag in the table: the loop goes on from the next-directory field, and no round
  removes a key.
\<close>

theorem while_ifd_next_directory:
  assumes "unpack_i (py_slice data offset (offset + 4)) = Inr d" and "d \<noteq> 0"
    and "unpack_h (py_slice data d (d + 2)) = Inr n"
    and "for_entries data (nat n) (d + 2) self = Inr (offset2, self2)"
    and "while_ifd data offset self = Some (Inr r)"
  shows "offset2 = d + 2 + 12 * int (nat n)
     \<and> while_ifd data offset2 self2 = Some (Inr r)
     \<and> (\<forall>k<nat n. \<exists>e. decode_tiff_value data (d + 2 + 12 * int k) = Inr e
            \<and> entries r (IntKey (id' e)) \<noteq> None)"
proof -
  from assms(1-4) have step: "while_ifd data offset self = while_ifd data offset2 self2"
    by (subst while_ifd.simps) simp
  with assms(5) have next_loop: "while_ifd data offset2 self2 = Some (Inr r)" by simp
  from while_ifd_dom [OF next_loop] have dm: "dom (entries self2) \<subseteq> dom (entries r)"
    by blast
  from for_entries_result [OF assms(4)] have off: "offset2 = d + 2 + 12 * int (nat n)"
    and ents: "\<forall>k<nat n. \<exists>e. decode_tiff_value data (d + 2 + 12 * int k) = Inr e
            \<and> entries self2 (IntKey (id' e)) \<noteq> None"
    by blast+
  have "\<exists>e. decode_tiff_value data (d + 2 + 12 * int k) = Inr e
            \<and> entries r (IntKey (id' e)) \<noteq> None" if "k < nat n" for k
  proof -
    from ents that obtain e where e: "decode_tiff_value data (d + 2 + 12 * int k) = Inr e"
      "entries self2 (IntKey (id' e)) \<noteq> None" by blast
    with dm have "entries r (IntKey (id' e)) \<noteq> None" by blast
    with e(1) show ?thesis by blast
  qed
  with off next_loop show ?thesis by blast
qed

theorem while_ifd_next_directory_witness:
  "while_ifd two_directories 4 \<lparr>entries = Map.empty, dirty = 0\<rparr>
     = Some (Inr \<lparr>entries =
         [IntKey 256 \<mapsto> \<lparr>typ' = Some 3, id' = 256, value' = IntVal 64, name = Some ''ImageWidth''\<rparr>,
          IntKey 257 \<mapsto> \<lparr>typ' = Some 3, id' = 257, value' = IntVal 48, name = Some ''ImageLength''\<rparr>],
         dirty = 1\<rparr>)
   \<and> while_ifd two_directories 22
       \<lparr>entries =
         [IntKey 256 \<mapsto> \<lparr>typ' = Some 3, id' = 256, value' = IntVal 64, name = Some ''ImageWidth''\<rparr>],
        dirty = 1\<rparr>
     = Some (Inr \<lparr>entries =
         [IntKey 256 \<mapsto> \<lparr>typ' = Some 3, id' = 256, value' = IntVal 64, name = Some ''ImageWidth''\<rparr>,
          IntKey 257 \<mapsto> \<lparr>typ' = Some 3, id' = 257, value' = IntVal 48, name = Some ''ImageLength''\<rparr>],
         dirty = 1\<rparr>)"
proof -
  let ?e1 = "\<lparr>typ' = Some 3, id' = 256, value' = IntVal 64, name = Some ''ImageWidth''\<rparr>"
  let ?e2 = "\<lparr>typ' = Some 3, id' = 257, value' = IntVal 48, name = Some ''ImageLength''\<rparr>"
  let ?s0 = "\<lparr>entries = Map.empty, dirty = 0\<rparr>"
  let ?s1 = "\<lparr>entries = [IntKey 256 \<mapsto> ?e1], dirty = 1\<rparr>"
  let ?s2 = "\<lparr>entries = [IntKey 256 \<mapsto> ?e1, IntKey 257 \<mapsto> ?e2], dirty = 1\<rparr>"
  have h1: "unpack_i (py_slice two_directories 4 (4 + 4)) = Inr 8"
    by (simp add: two_directories_def exif_eval)
  have h2: "(8::int) \<noteq> 0" by simp
  have h3: "unpack_h (py_slice two_directories 8 (8 + 2)) = Inr 1"
    by (simp add: two_directories_def exif_eval)
  have h4: "for_entries two_directories (nat 1) (8 + 2) ?s0 = Inr (22, ?s1)"
    by (simp add: two_directories_def exif_eval)
  have h5: "while_ifd two_directories 4 ?s0 = Some (Inr ?s2)"
    by (simp add: two_directories_def exif_eval while_ifd.simps)
  from while_ifd_next_directory [OF h1 h2 h3 h4 h5] h5 show ?thesis by simp
qed

theorem second_directory_read_counterexample:
  "Exif_init (Some two_directories)
     = Some (Inr \<lparr>entries =
         [IntKey 256 \<mapsto> \<lparr>typ' = Some 3, id' = 256, value' = IntVal 64, name = Some ''ImageWidth''\<rparr>,
          IntKey 257 \<mapsto> \<lparr>typ' = Some 3, id' = 257, value' = IntVal 48, name = Some ''ImageLength''\<rparr>],
         dirty = 1\<rparr>)"
  by (simp add: Exif_init_def two_directories_def exif_eval while_ifd.simps)

section \<open>The dirty flag\<close>

lemma Exif_init_no_data:
  "Exif_init None = Some (Inr \<lparr>entries = Map.empty, dirty = 0\<rparr>)"
  "Exif_init (Some []) = Some (Inr \<lparr>entries = Map.empty, dirty = 0\<rparr>)"
  by (simp_all add: Exif_init_def)

lemma setitem_dirty: "setitem self k it = Inr self' \<Longrightarrow> dirty self' = 1"
  by (auto simp: setitem_def split: item.splits)

lemma delitem_dirty: "delitem self k = Inr self' \<Longrightarrow> dirty self' = 1"
  by (auto simp: delitem_def split: option.splits)

text \<open>
  C7 (the code at a block with one entry). The constructor sets \<open>dirty\<close> to 0 and then
  stores every decoded entry through \<open>__setitem__\<close>, which sets it to 1: the table built
  from a block with an entry is dirty as soon as it is constructed.
\<close>

theorem Exif_init_leaves_dirty:
  "Exif_init (Some one_entry)
     = Some (Inr \<lparr>entries =
         [IntKey 256 \<mapsto> \<lparr>typ' = Some 3, id' = 256, value' = IntVal 64, name = Some ''ImageWidth''\<rparr>],
         dirty = 1\<rparr>)"
  by (simp add: Exif_init_def one_entry_def exif_eval while_ifd.simps)

section \<open>Rational entries\<close>

lemma le_uint_nonneg: "0 \<le> le_uint bs"
  by (induction bs) simp_all

lemma unpack_II_nonneg: "unpack_II s = Inr (num, dem) \<Longrightarrow> 0 \<le> num \<and> 0 \<le> dem"
  by (auto simp: unpack_II_def le_uint_nonneg split: if_splits)

text \<open>
  C8. Every entry that \<open>_decode_tiff_value\<close> returns with type 5 has as its value the
  integer quotient \<open>num div dem\<close> of the two unsigned 32-bit integers read at the
  entry's offset field (both are non-negative, so rounding down is truncation). The
  block \<open>rational_half\<close>, with numerator 1 and denominator 2, decodes to 0.
\<close>

theorem rational_value_quotient:
  assumes "decode_tiff_value data offset = Inr e" and "typ' e = Some 5"
  shows "\<exists>tag n val_off num dem.
      unpack_hhii (py_slice data offset (offset + 12)) = Inr (tag, 5, n, val_off)
      \<and> unpack_II (py_slice data val_off (val_off + 8)) = Inr (num, dem)
      \<and> 0 \<le> num \<and> 0 < dem \<and> value' e = IntVal (num div dem)"
proof -
  from assms(1) obtain tag t n val_off where
    hd: "unpack_hhii (py_slice data offset (offset + 12)) = Inr (tag, t, n, val_off)"
    by (auto simp: decode_tiff_value_def Let_def split: if_splits sum.splits)
  from assms hd have t: "t = 5"
    by (auto simp: decode_tiff_value_def Let_def IFDEntry_init_def
        split: if_splits sum.splits)
  from assms(1) hd t obtain num dem where
    r: "unpack_II (py_slice data val_off (val_off + 8)) = Inr (num, dem)"
    and nz: "dem \<noteq> 0" and v: "value' e = IntVal (num div dem)"
    by (auto simp: decode_tiff_value_def Let_def IFDEntry_init_def
        split: if_splits sum.splits)
  from unpack_II_nonneg [OF r] nz have "0 \<le> num" "0 < dem" by simp_all
  with hd t r v show ?thesis by blast
qed

theorem rational_value_quotient_witness:
  "decode_tiff_value rational_half 0
     = Inr \<lparr>typ' = Some 5, id' = 282, value' = IntVal 0, name = Some ''XResolution''\<rparr>
   \<and> unpack_II (py_slice rational_half 12 (12 + 8)) = Inr (1, 2)
   \<and> value' \<lparr>typ' = Some 5, id' = 282, value' = IntVal 0, name = Some ''XResolution''\<rparr>
       = IntVal (1 div 2)"
proof -
  let ?e = "\<lparr>typ' = Some 5, id' = 282, value' = IntVal 0, name = Some ''XResolution''\<rparr>"
  have h1: "decode_tiff_value rational_half 0 = Inr ?e"
    by (simp add: rational_half_def exif_eval)
  have h2: "typ' ?e = Some 5" by simp
  have hd: "unpack_hhii (py_slice rational_half 0 (0 + 12)) = Inr (282, 5, 1, 12)"
    by (simp add: rational_half_def exif_eval)
  have r: "unpack_II (py_slice rational_half 12 (12 + 8)) = Inr (1, 2)"
    by (simp add: rational_half_def exif_eval)
  from rational_value_quotient [OF h1 h2] hd obtain num dem where
    "unpack_II (py_slice rational_half 12 (12 + 8)) = Inr (num, dem)"
    "value' ?e = IntVal (num div dem)" by auto
  with h1 r show ?thesis by auto
qed

text \<open>
  C10. A type-5 entry whose denominator field is 0 makes \<open>_decode_tiff_value\<close> raise
  ZeroDivisionError: the division is not guarded.
\<close>

theorem rational_zero_denominator:
  assumes "unpack_hhii (py_slice data offset (offset + 12)) = Inr (tag, 5, n, val_off)"
    and "unpack_II (py_slice data val_off (val_off + 8)) = Inr (num, 0)"
  shows "decode_tiff_value data offset = Inl ZeroDivisionError"
proof -
  from assms(1) have "length (py_slice data offset (offset + 12)) = 12"
    by (auto simp: unpack_hhii_def split: if_splits)
  with assms show ?thesis by (simp add: decode_tiff_value_def Let_def)
qed

theorem rational_zero_denominator_witness:
  "unpack_hhii (py_slice rational_zero 0 (0 + 12)) = Inr (282, 5, 1, 12)
   \<and> unpack_II (py_slice rational_zero 12 (12 + 8)) = Inr (1, 0)
   \<and> decode_tiff_value rational_zero 0 = Inl ZeroDivisionError"
proof -
  have h1: "unpack_hhii (py_slice rational_zero 0 (0 + 12)) = Inr (282, 5, 1, 12)"
    by (simp add: rational_zero_def exif_eval)
  have h2: "unpack_II (py_slice rational_zero 12 (12 + 8)) = Inr (1, 0)"
    by (simp add: rational_zero_def exif_eval)
  from rational_zero_denominator [OF h1 h2] h1 h2 show ?thesis by simp
qed

end
